theory Spec2Isabelle
  imports Main
begin

section \<open>Text primitives of the host language\<close>

text \<open>
  The module \<^verbatim>\<open>MDAnalysis/core/util.py\<close> is Python 2 code working on byte strings.
  A string is a \<^typ>\<open>string\<close> (a list of 8-bit characters), an integer is an unbounded
  \<^typ>\<open>int\<close>. The string methods and builtins that the module calls are written out
  here: \<^verbatim>\<open>str.strip\<close>, \<^verbatim>\<open>str.upper\<close>, \<^verbatim>\<open>str.split(',')\<close>,
  \<^verbatim>\<open>','.join\<close>, slicing and \<^verbatim>\<open>int\<close> on a string.
\<close>

definition isspace :: "char \<Rightarrow> bool" where
  "isspace c = (c \<in> set [CHR '' '', CHR 0x09, CHR 0x0A, CHR 0x0B, CHR 0x0C, CHR 0x0D])"

definition isdigit :: "char \<Rightarrow> bool" where
  "isdigit c = (c \<in> set ''0123456789'')"

definition digit_val :: "char \<Rightarrow> int" where
  "digit_val c = int (of_char c) - 48"

definition digits_val :: "string \<Rightarrow> int" where
  "digits_val ds = foldl (\<lambda>a c. 10 * a + digit_val c) 0 ds"

definition upper_char :: "char \<Rightarrow> char" where
  "upper_char c =
     (case map_of (zip ''abcdefghijklmnopqrstuvwxyz'' ''ABCDEFGHIJKLMNOPQRSTUVWXYZ'') c of
        None \<Rightarrow> c
      | Some u \<Rightarrow> u)"

definition str_upper :: "string \<Rightarrow> string" where
  "str_upper s = map upper_char s"

definition str_strip :: "string \<Rightarrow> string" where
  "str_strip s = rev (dropWhile isspace (rev (dropWhile isspace s)))"

text \<open>\<^verbatim>\<open>s.split(',')\<close>: every comma separates; the result is never empty.\<close>

fun split_comma :: "string \<Rightarrow> string list" where
  "split_comma [] = [[]]"
| "split_comma (c # cs) =
     (if c = CHR '','' then [] # split_comma cs
      else (case split_comma cs of
              [] \<Rightarrow> [[c]]
            | t # ts \<Rightarrow> (c # t) # ts))"

text \<open>\<^verbatim>\<open>','.join(ts)\<close>.\<close>

fun join_comma :: "string list \<Rightarrow> string" where
  "join_comma [] = []"
| "join_comma [t] = t"
| "join_comma (t # u # ts) = t @ CHR '','' # join_comma (u # ts)"

text \<open>
  \<^verbatim>\<open>s[a:b]\<close> for integer bounds: a negative bound counts from the end, and both
  bounds are clamped to the string, so a slice never fails.
\<close>

definition slice_bound :: "int \<Rightarrow> int \<Rightarrow> nat" where
  "slice_bound n i = nat (if i < 0 then max (i + n) 0 else min i n)"

definition py_slice :: "string \<Rightarrow> int \<Rightarrow> int \<Rightarrow> string" where
  "py_slice s a b =
     (let n = int (length s); lo = slice_bound n a; hi = slice_bound n b
      in take (hi - lo) (drop lo s))"

text \<open>
  \<^verbatim>\<open>int(s)\<close> on a string, base 10: surrounding white space is ignored, then an
  optional sign and at least one decimal digit must make up the whole text. The
  result \<open>None\<close> stands for the \<^verbatim>\<open>ValueError\<close> that \<^verbatim>\<open>int\<close> raises on any
  other text.
\<close>

definition py_int :: "string \<Rightarrow> int option" where
  "py_int s =
     (let t = str_strip s;
          neg = (case t of [] \<Rightarrow> False | c # _ \<Rightarrow> c = CHR ''-'');
          ds = (case t of [] \<Rightarrow> [] | c # r \<Rightarrow> if c = CHR ''-'' \<or> c = CHR ''+'' then r else t)
      in if ds \<noteq> [] \<and> list_all isdigit ds
         then Some (if neg then - digits_val ds else digits_val ds)
         else None)"

section \<open>The edit descriptor pattern\<close>

text \<open>
  \<^verbatim>\<open>FORTRAN_format_regex\<close> is
  \<^verbatim>\<open>(?P<repeat>\d+?)(?P<format>[IFEAX])(?P<numfmt>(?P<length>\d+)(\.(?P<decimals>\d+))?)?\<close>
  and it is applied with \<^verbatim>\<open>match\<close>, which anchors at the start of the text only.
  The group \<^verbatim>\<open>repeat\<close> needs at least one digit and must be followed at once by
  one of the five letters, so it is the whole leading run of digits. The optional
  group \<^verbatim>\<open>numfmt\<close> is greedy: the longest run of digits after the letter, then, if a
  dot followed by a digit comes next, the dot and the longest run of digits.
  A group that takes no part in the match is \<open>None\<close>. \<open>match_numfmt\<close> gives the
  groups \<^verbatim>\<open>numfmt\<close>, \<^verbatim>\<open>length\<close> and \<^verbatim>\<open>decimals\<close> on the text after the letter.
\<close>

record regex_match =
  m_repeat :: string
  m_format :: char
  m_numfmt :: "string option"
  m_length :: "string option"
  m_decimals :: "string option"

definition match_numfmt :: "string \<Rightarrow> string option \<times> string option \<times> string option" where
  "match_numfmt rest =
     (let len = takeWhile isdigit rest in
      if len = [] then (None, None, None)
      else (case dropWhile isdigit rest of
              [] \<Rightarrow> (Some len, Some len, None)
            | p # after \<Rightarrow>
                (let dec = takeWhile isdigit after in
                 if p = CHR ''.'' \<and> dec \<noteq> []
                 then (Some (len @ CHR ''.'' # dec), Some len, Some dec)
                 else (Some len, Some len, None))))"

definition FORTRAN_format_match :: "string \<Rightarrow> regex_match option" where
  "FORTRAN_format_match s =
     (let rep = takeWhile isdigit s in
      if rep = [] then None
      else (case dropWhile isdigit s of
              [] \<Rightarrow> None
            | c # rest \<Rightarrow>
                if c \<notin> set ''IFEAX'' then None
                else (case match_numfmt rest of
                        (numfmt, len, dec) \<Rightarrow>
                          Some \<lparr>m_repeat = rep, m_format = c, m_numfmt = numfmt,
                                m_length = len, m_decimals = dec\<rparr>)))"

section \<open>Column entries\<close>

text \<open>
  The class attribute \<^verbatim>\<open>convertors\<close> maps a type code to one of three functions:
  the builtins \<^verbatim>\<open>int\<close> and \<^verbatim>\<open>float\<close> and the module's \<^verbatim>\<open>strip\<close>.
\<close>

datatype convertor = Conv_int | Conv_float | Conv_strip

record FixedcolumnEntry =
  e_start :: int
  e_stop :: int
  e_typespecifier :: char
  e_convertor :: convertor

text \<open>
  The exceptions that the modelled code can raise. \<^verbatim>\<open>ValueError\<close> carries the
  arguments that \<^verbatim>\<open>FixedcolumnEntry.read\<close> gives it: the entry and the raw slice.
\<close>

datatype exn =
    ValueError FixedcolumnEntry string
  | TypeError
  | AttributeError
  | KeyError

text \<open>A converted field: an integer, a float or a string.\<close>

datatype 'f pyvalue = IntV int | FloatV 'f | StrV string

definition convertors :: "char \<Rightarrow> convertor option" where
  "convertors =
     map_of [(CHR ''I'', Conv_int), (CHR ''F'', Conv_float),
             (CHR ''E'', Conv_float), (CHR ''A'', Conv_strip)]"

text \<open>\<^verbatim>\<open>FixedcolumnEntry.__init__\<close>: the dictionary lookup fails on an unknown code.\<close>

definition FixedcolumnEntry_init :: "int \<Rightarrow> int \<Rightarrow> char \<Rightarrow> exn + FixedcolumnEntry" where
  "FixedcolumnEntry_init start stop typespecifier =
     (case convertors typespecifier of
        None \<Rightarrow> Inl KeyError
      | Some c \<Rightarrow>
          Inr \<lparr>e_start = start, e_stop = stop,
               e_typespecifier = typespecifier, e_convertor = c\<rparr>)"

text \<open>
  Calling the convertor on a slice. \<open>None\<close> is the \<^verbatim>\<open>ValueError\<close> of the builtin.
  The builtin \<^verbatim>\<open>float\<close> is a parameter \<open>flt\<close> of the model: floating point values
  are not interpreted, only whether the conversion succeeds matters here.
\<close>

fun apply_convertor :: "(string \<Rightarrow> 'f option) \<Rightarrow> convertor \<Rightarrow> string \<Rightarrow> 'f pyvalue option" where
  "apply_convertor flt Conv_int s = map_option IntV (py_int s)"
| "apply_convertor flt Conv_float s = map_option FloatV (flt s)"
| "apply_convertor flt Conv_strip s = Some (StrV (str_strip s))"

text \<open>
  \<^verbatim>\<open>FixedcolumnEntry.read\<close>: a \<^verbatim>\<open>ValueError\<close> of the convertor is caught and a new
  \<^verbatim>\<open>ValueError\<close> with the entry and the slice is raised.
\<close>

definition FixedcolumnEntry_read ::
    "(string \<Rightarrow> 'f option) \<Rightarrow> FixedcolumnEntry \<Rightarrow> string \<Rightarrow> exn + 'f pyvalue" where
  "FixedcolumnEntry_read flt e line =
     (let s = py_slice line (e_start e) (e_stop e) in
      case apply_convertor flt (e_convertor e) s of
        None \<Rightarrow> Inl (ValueError e s)
      | Some v \<Rightarrow> Inr v)"

section \<open>Parsing one edit descriptor\<close>

text \<open>
  The dictionary that \<^verbatim>\<open>parse_FORTRAN_format\<close> returns. The repeat and the length
  are integers in every returned dictionary: the repeat is always captured, and a
  length that is \<^verbatim>\<open>None\<close> makes the method raise before it returns. The decimals
  may be \<^verbatim>\<open>None\<close>.
\<close>

record descriptor =
  d_repeat :: int
  d_format :: char
  d_numfmt :: "string option"
  d_length :: int
  d_decimals :: "int option"
  d_totallength :: int

text \<open>
  The conversion loop of \<^verbatim>\<open>parse_FORTRAN_format\<close> on a captured string:
  \<^verbatim>\<open>try: d[k] = int(d[k])\<close>, \<^verbatim>\<open>except ValueError: d[k] = 0\<close>.
\<close>

definition int_or_zero :: "string \<Rightarrow> int" where
  "int_or_zero s = (case py_int s of None \<Rightarrow> 0 | Some n \<Rightarrow> n)"

text \<open>
  \<^verbatim>\<open>FORTRANReader.parse_FORTRAN_format\<close>. When the pattern does not match, the
  match is tried again on the text with \<^verbatim>\<open>"1"\<close> in front. The \<^verbatim>\<open>try\<close> around
  that second call catches nothing, since \<^verbatim>\<open>match\<close> returns \<^verbatim>\<open>None\<close> and does not
  raise; \<^verbatim>\<open>m.groupdict()\<close> on \<^verbatim>\<open>None\<close> then raises \<^verbatim>\<open>AttributeError\<close>.
  A capture that is \<^verbatim>\<open>None\<close> stays \<^verbatim>\<open>None\<close> in the conversion loop
  (\<^verbatim>\<open>except TypeError: pass\<close>), and \<^verbatim>\<open>d['repeat'] * d['length']\<close> raises
  \<^verbatim>\<open>TypeError\<close> when the length is \<^verbatim>\<open>None\<close>.
\<close>

definition match_descriptor :: "string \<Rightarrow> regex_match option" where
  "match_descriptor edit_descriptor =
     (case FORTRAN_format_match (str_upper edit_descriptor) of
        None \<Rightarrow> FORTRAN_format_match (CHR ''1'' # str_upper edit_descriptor)
      | Some g \<Rightarrow> Some g)"

definition parse_FORTRAN_format :: "string \<Rightarrow> exn + descriptor" where
  "parse_FORTRAN_format edit_descriptor =
     (case match_descriptor edit_descriptor of
        None \<Rightarrow> Inl AttributeError
      | Some g \<Rightarrow>
          (let repeat = (if m_repeat g = [] then 1 else int_or_zero (m_repeat g));
               len = (if m_format g = CHR ''X'' then Some 1
                      else map_option int_or_zero (m_length g));
               decimals = map_option int_or_zero (m_decimals g)
           in case len of
                None \<Rightarrow> Inl TypeError
              | Some l \<Rightarrow>
                  Inr \<lparr>d_repeat = repeat, d_format = m_format g,
                       d_numfmt = m_numfmt g, d_length = l,
                       d_decimals = decimals, d_totallength = repeat * l\<rparr>))"

section \<open>The reader\<close>

record FORTRANReader =
  r_fmt :: "string list"
  r_entries :: "FixedcolumnEntry list"

text \<open>
  The list comprehension over \<^verbatim>\<open>self.fmt\<close>: the descriptors are parsed from left to
  right and the first exception ends the construction.
\<close>

fun parse_descriptors :: "string list \<Rightarrow> exn + descriptor list" where
  "parse_descriptors [] = Inr []"
| "parse_descriptors (t # ts) =
     (case parse_FORTRAN_format t of
        Inl x \<Rightarrow> Inl x
      | Inr d \<Rightarrow>
          (case parse_descriptors ts of
             Inl x \<Rightarrow> Inl x
           | Inr ds \<Rightarrow> Inr (d # ds)))"

text \<open>
  The inner loop \<^verbatim>\<open>for x in range(d['repeat'])\<close> on the state
  \<open>(start, entries)\<close>; the first argument counts the iterations left.
\<close>

fun emit_entries ::
    "nat \<Rightarrow> descriptor \<Rightarrow> int \<times> FixedcolumnEntry list \<Rightarrow> exn + int \<times> FixedcolumnEntry list" where
  "emit_entries 0 d st = Inr st"
| "emit_entries (Suc n) d (start, entries) =
     (let stop = start + d_length d in
      case FixedcolumnEntry_init start stop (d_format d) of
        Inl x \<Rightarrow> Inl x
      | Inr e \<Rightarrow> emit_entries n d (stop, entries @ [e]))"

text \<open>The body of the outer loop \<^verbatim>\<open>for d in descriptors\<close>.\<close>

definition init_step ::
    "descriptor \<Rightarrow> int \<times> FixedcolumnEntry list \<Rightarrow> exn + int \<times> FixedcolumnEntry list" where
  "init_step d st =
     (if d_format d \<noteq> CHR ''X'' then emit_entries (nat (d_repeat d)) d st
      else Inr (fst st + d_totallength d, snd st))"

fun init_loop ::
    "descriptor list \<Rightarrow> int \<times> FixedcolumnEntry list \<Rightarrow> exn + int \<times> FixedcolumnEntry list" where
  "init_loop [] st = Inr st"
| "init_loop (d # ds) st =
     (case init_step d st of
        Inl x \<Rightarrow> Inl x
      | Inr st' \<Rightarrow> init_loop ds st')"

text \<open>\<^verbatim>\<open>FORTRANReader.__init__\<close>: an exception leaves no reader behind.\<close>

definition FORTRANReader_init :: "string \<Rightarrow> exn + FORTRANReader" where
  "FORTRANReader_init fmt =
     (case parse_descriptors (split_comma fmt) of
        Inl x \<Rightarrow> Inl x
      | Inr descriptors \<Rightarrow>
          (case init_loop descriptors (0, []) of
             Inl x \<Rightarrow> Inl x
           | Inr st \<Rightarrow> Inr \<lparr>r_fmt = split_comma fmt, r_entries = snd st\<rparr>))"

text \<open>
  \<^verbatim>\<open>FORTRANReader.read\<close>: the list comprehension reads the entries in order and
  the first exception propagates.
\<close>

fun read_entries ::
    "(string \<Rightarrow> 'f option) \<Rightarrow> FixedcolumnEntry list \<Rightarrow> string \<Rightarrow> exn + 'f pyvalue list" where
  "read_entries flt [] line = Inr []"
| "read_entries flt (e # es) line =
     (case FixedcolumnEntry_read flt e line of
        Inl x \<Rightarrow> Inl x
      | Inr v \<Rightarrow>
          (case read_entries flt es line of
             Inl x \<Rightarrow> Inl x
           | Inr vs \<Rightarrow> Inr (v # vs)))"

definition FORTRANReader_read ::
    "(string \<Rightarrow> 'f option) \<Rightarrow> FORTRANReader \<Rightarrow> string \<Rightarrow> exn + 'f pyvalue list" where
  "FORTRANReader_read flt r line = read_entries flt (r_entries r) line"

text \<open>
  \<^verbatim>\<open>FORTRANReader.number_of_matches\<close>: the loop with its counter. Only a
  \<^verbatim>\<open>ValueError\<close> is caught; any other exception would propagate.
\<close>

fun count_matches ::
    "(string \<Rightarrow> 'f option) \<Rightarrow> FixedcolumnEntry list \<Rightarrow> string \<Rightarrow> int \<Rightarrow> exn + int" where
  "count_matches flt [] line matches = Inr matches"
| "count_matches flt (e # es) line matches =
     (case FixedcolumnEntry_read flt e line of
        Inr v \<Rightarrow> count_matches flt es line (matches + 1)
      | Inl (ValueError a s) \<Rightarrow> count_matches flt es line matches
      | Inl x \<Rightarrow> Inl x)"

definition FORTRANReader_number_of_matches ::
    "(string \<Rightarrow> 'f option) \<Rightarrow> FORTRANReader \<Rightarrow> string \<Rightarrow> exn + int" where
  "FORTRANReader_number_of_matches flt r line = count_matches flt (r_entries r) line 0"

definition FORTRANReader_len :: "FORTRANReader \<Rightarrow> int" where
  "FORTRANReader_len r = int (length (r_entries r))"

definition FORTRANReader_repr :: "FORTRANReader \<Rightarrow> string" where
  "FORTRANReader_repr r = ''FORTRANReader('' @ join_comma (r_fmt r) @ '')''"

section \<open>Notions used in the statements\<close>

text \<open>
  What a descriptor token says, read off its text: the repeat count is the value of
  the leading digits, or 1 when there are none, and the type code is the first
  character after them, in upper case.
\<close>

definition token_repeat :: "string \<Rightarrow> int" where
  "token_repeat t =
     (if takeWhile isdigit t = [] then 1 else digits_val (takeWhile isdigit t))"

definition token_code :: "string \<Rightarrow> char option" where
  "token_code t =
     (case dropWhile isdigit t of
        [] \<Rightarrow> None
      | c # rest \<Rightarrow> Some (upper_char c))"

text \<open>
  The column layout in closed form: \<open>field_run n c w ts cv\<close> is a run of \<open>n\<close>
  adjacent entries of width \<open>w\<close> that starts at column \<open>c\<close>, and \<open>layout c ds\<close>
  places the descriptors \<open>ds\<close> one after the other from column \<open>c\<close> on.
\<close>

fun field_run :: "nat \<Rightarrow> int \<Rightarrow> int \<Rightarrow> char \<Rightarrow> convertor \<Rightarrow> FixedcolumnEntry list" where
  "field_run 0 c w ts cv = []"
| "field_run (Suc n) c w ts cv =
     \<lparr>e_start = c, e_stop = c + w, e_typespecifier = ts, e_convertor = cv\<rparr>
       # field_run n (c + w) w ts cv"

fun layout :: "int \<Rightarrow> descriptor list \<Rightarrow> FixedcolumnEntry list" where
  "layout c [] = []"
| "layout c (d # ds) =
     (if d_format d = CHR ''X'' then layout (c + d_totallength d) ds
      else (case convertors (d_format d) of
              None \<Rightarrow> []
            | Some cv \<Rightarrow> field_run (nat (d_repeat d)) c (d_length d) (d_format d) cv)
           @ layout (c + d_totallength d) ds)"

text \<open>
  Entries in column order from column \<open>c\<close> on: no entry starts before the one
  before it stops, and none stops before it starts. In the second notion every
  entry starts exactly where the one before it stops.
\<close>

fun ordered_from :: "int \<Rightarrow> FixedcolumnEntry list \<Rightarrow> bool" where
  "ordered_from c [] = True"
| "ordered_from c (e # es) = (c \<le> e_start e \<and> e_start e \<le> e_stop e \<and> ordered_from (e_stop e) es)"

fun gapless_from :: "int \<Rightarrow> FixedcolumnEntry list \<Rightarrow> bool" where
  "gapless_from c [] = True"
| "gapless_from c (e # es) = (e_start e = c \<and> gapless_from (e_stop e) es)"

text \<open>A parsed descriptor that the construction loop can place.\<close>

definition placeable :: "descriptor \<Rightarrow> bool" where
  "placeable d =
     (d_format d \<in> set ''IFEAX'' \<and> 0 \<le> d_repeat d \<and> 0 \<le> d_length d
      \<and> d_totallength d = d_repeat d * d_length d)"

text \<open>
  What a list of descriptors takes up: \<open>entries_of ds\<close> is the number of entries it
  stands for, the repeat of every descriptor other than \<open>X\<close>, and \<open>columns_of ds\<close>
  is the number of columns it covers, the repeat times the width of every
  descriptor other than \<open>X\<close> and the repeat of every \<open>X\<close> descriptor.
\<close>

definition entries_of :: "descriptor list \<Rightarrow> nat" where
  "entries_of ds =
     sum_list (map (\<lambda>d. if d_format d = CHR ''X'' then 0 else nat (d_repeat d)) ds)"

definition columns_of :: "descriptor list \<Rightarrow> int" where
  "columns_of ds =
     sum_list (map (\<lambda>d. if d_format d = CHR ''X'' then d_repeat d
                        else d_repeat d * d_length d) ds)"

section \<open>Example data\<close>

text \<open>
  The format of the class documentation shortened to three descriptors, its
  reader, a line that fits it and a line whose second field is no integer.
\<close>

abbreviation crd_entries :: "FixedcolumnEntry list" where
  "crd_entries \<equiv>
     [\<lparr>e_start = 0, e_stop = 10, e_typespecifier = CHR ''I'', e_convertor = Conv_int\<rparr>,
      \<lparr>e_start = 10, e_stop = 20, e_typespecifier = CHR ''I'', e_convertor = Conv_int\<rparr>,
      \<lparr>e_start = 22, e_stop = 30, e_typespecifier = CHR ''A'', e_convertor = Conv_strip\<rparr>]"

abbreviation crd_reader :: FORTRANReader where
  "crd_reader \<equiv> \<lparr>r_fmt = [''2I10'', ''2X'', ''A8''], r_entries = crd_entries\<rparr>"

abbreviation crd_line :: string where
  "crd_line \<equiv> ''       123       456  hello   ''"

abbreviation bad_line :: string where
  "bad_line \<equiv> ''       123       45x  hello   ''"

abbreviation no_float :: "string \<Rightarrow> unit option" where
  "no_float \<equiv> (\<lambda>s. None)"

abbreviation dense_descriptors :: "descriptor list" where
  "dense_descriptors \<equiv>
     [\<lparr>d_repeat = 2, d_format = CHR ''I'', d_numfmt = Some ''5'', d_length = 5,
        d_decimals = None, d_totallength = 10\<rparr>,
      \<lparr>d_repeat = 1, d_format = CHR ''A'', d_numfmt = Some ''3'', d_length = 3,
        d_decimals = None, d_totallength = 3\<rparr>]"

abbreviation dense_reader :: FORTRANReader where
  "dense_reader \<equiv>
     \<lparr>r_fmt = [''2I5'', ''A3''],
      r_entries =
        [\<lparr>e_start = 0, e_stop = 5, e_typespecifier = CHR ''I'', e_convertor = Conv_int\<rparr>,
         \<lparr>e_start = 5, e_stop = 10, e_typespecifier = CHR ''I'', e_convertor = Conv_int\<rparr>,
         \<lparr>e_start = 10, e_stop = 13, e_typespecifier = CHR ''A'', e_convertor = Conv_strip\<rparr>]\<rparr>"

abbreviation text_reader :: FORTRANReader where
  "text_reader \<equiv>
     \<lparr>r_fmt = [''A4'', ''2X'', ''A3''],
      r_entries =
        [\<lparr>e_start = 0, e_stop = 4, e_typespecifier = CHR ''A'', e_convertor = Conv_strip\<rparr>,
         \<lparr>e_start = 6, e_stop = 9, e_typespecifier = CHR ''A'', e_convertor = Conv_strip\<rparr>]\<rparr>"

abbreviation descriptor_3X7 :: descriptor where
  "descriptor_3X7 \<equiv>
     \<lparr>d_repeat = 3, d_format = CHR ''X'', d_numfmt = Some ''7'', d_length = 1,
      d_decimals = None, d_totallength = 3\<rparr>"

abbreviation descriptor_2I10 :: descriptor where
  "descriptor_2I10 \<equiv>
     \<lparr>d_repeat = 2, d_format = CHR ''I'', d_numfmt = Some ''10'', d_length = 10,
      d_decimals = None, d_totallength = 20\<rparr>"

abbreviation descriptor_2X :: descriptor where
  "descriptor_2X \<equiv>
     \<lparr>d_repeat = 2, d_format = CHR ''X'', d_numfmt = None, d_length = 1,
      d_decimals = None, d_totallength = 2\<rparr>"

abbreviation descriptor_A8 :: descriptor where
  "descriptor_A8 \<equiv>
     \<lparr>d_repeat = 1, d_format = CHR ''A'', d_numfmt = Some ''8'', d_length = 8,
      d_decimals = None, d_totallength = 8\<rparr>"

abbreviation empty_field_reader :: FORTRANReader where
  "empty_field_reader \<equiv>
     \<lparr>r_fmt = [''I0''],
      r_entries =
        [\<lparr>e_start = 0, e_stop = 0, e_typespecifier = CHR ''I'', e_convertor = Conv_int\<rparr>]\<rparr>"

section \<open>Splitting and joining\<close>

lemma split_comma_nonempty: "split_comma s \<noteq> []"
  by (induction s) (auto split: list.splits)

lemma join_split_comma: "join_comma (split_comma s) = s"
proof (induction s)
  case Nil
  show ?case by simp
next
  case (Cons c cs)
  obtain t ts where sp: "split_comma cs = t # ts"
    using split_comma_nonempty [of cs] by (cases "split_comma cs") auto
  show ?case
  proof (cases "c = CHR '',''")
    case True
    with Cons sp show ?thesis by simp
  next
    case False
    with Cons sp show ?thesis by (cases ts) auto
  qed
qed

section \<open>Digits\<close>

lemma isdigit_not_isspace: "isdigit c \<Longrightarrow> \<not> isspace c"
  by (auto simp: isdigit_def isspace_def)

lemma dropWhile_none: "list_all (\<lambda>x. \<not> P x) xs \<Longrightarrow> dropWhile P xs = xs"
  by (cases xs) auto

lemma digits_no_space: "list_all isdigit ds \<Longrightarrow> list_all (\<lambda>x. \<not> isspace x) ds"
  by (induction ds) (auto simp: isdigit_not_isspace)

lemma str_strip_digits:
  assumes "list_all isdigit ds"
  shows "str_strip ds = ds"
proof -
  have a: "list_all (\<lambda>x. \<not> isspace x) ds" using assms by (rule digits_no_space)
  then have b: "list_all (\<lambda>x. \<not> isspace x) (rev ds)" by (simp add: list_all_iff)
  show ?thesis
    unfolding str_strip_def by (simp add: dropWhile_none [OF a] dropWhile_none [OF b])
qed

lemma takeWhile_all: "list_all P (takeWhile P xs)"
  by (induction xs) auto

lemma digit_val_nonneg: "isdigit c \<Longrightarrow> 0 \<le> digit_val c"
  by (auto simp: isdigit_def digit_val_def)

lemma foldl_digits_nonneg:
  "list_all isdigit ds \<Longrightarrow> 0 \<le> a \<Longrightarrow> 0 \<le> foldl (\<lambda>a c. 10 * a + digit_val c) a ds"
  by (induction ds arbitrary: a) (auto simp: digit_val_nonneg)

lemma digits_val_nonneg: "list_all isdigit ds \<Longrightarrow> 0 \<le> digits_val ds"
  unfolding digits_val_def by (rule foldl_digits_nonneg) auto

lemma py_int_digits:
  assumes "ds \<noteq> []" "list_all isdigit ds"
  shows "py_int ds = Some (digits_val ds)"
proof -
  obtain c cs where ds: "ds = c # cs" using assms(1) by (cases ds) auto
  have "isdigit c" using assms(2) ds by simp
  then have "c \<noteq> CHR ''-''" "c \<noteq> CHR ''+''" by (auto simp: isdigit_def)
  then show ?thesis
    using assms ds by (simp add: py_int_def str_strip_digits)
qed

lemma int_or_zero_digits:
  "ds \<noteq> [] \<Longrightarrow> list_all isdigit ds \<Longrightarrow> int_or_zero ds = digits_val ds"
  by (simp add: int_or_zero_def py_int_digits)

lemma isdigit_one: "isdigit (CHR ''1'')"
  by (simp add: isdigit_def)

lemma digits_val_one: "digits_val ''1'' = 1"
  by (simp add: digits_val_def digit_val_def)

section \<open>Upper case leaves digits alone\<close>

lemma map_of_zip_None: "c \<notin> set xs \<Longrightarrow> map_of (zip xs ys) c = None"
  by (auto simp: map_of_eq_None_iff dest: set_zip_leftD)

lemma map_of_zip_Some: "map_of (zip xs ys) c = Some u \<Longrightarrow> u \<in> set ys"
  by (meson map_of_SomeD set_zip_rightD)

lemma digit_not_small: "isdigit c \<Longrightarrow> c \<notin> set ''abcdefghijklmnopqrstuvwxyz''"
  by (auto simp: isdigit_def)

lemma capital_not_digit: "u \<in> set ''ABCDEFGHIJKLMNOPQRSTUVWXYZ'' \<Longrightarrow> \<not> isdigit u"
  by (auto simp: isdigit_def)

lemma upper_char_digit:
  assumes "isdigit c"
  shows "upper_char c = c"
proof -
  have "map_of (zip ''abcdefghijklmnopqrstuvwxyz'' ''ABCDEFGHIJKLMNOPQRSTUVWXYZ'') c = None"
    by (rule map_of_zip_None) (rule digit_not_small [OF assms])
  then show ?thesis unfolding upper_char_def by (simp only: option.case)
qed

lemma isdigit_upper_char: "isdigit (upper_char c) = isdigit c"
proof (cases "map_of (zip ''abcdefghijklmnopqrstuvwxyz'' ''ABCDEFGHIJKLMNOPQRSTUVWXYZ'') c")
  case None
  then have "upper_char c = c" unfolding upper_char_def by (simp only: option.case)
  then show ?thesis by (simp only:)
next
  case (Some u)
  have u: "upper_char c = u" unfolding upper_char_def Some by (simp only: option.case)
  have "\<not> isdigit u"
    by (rule capital_not_digit) (rule map_of_zip_Some [OF Some])
  moreover have "\<not> isdigit c"
  proof
    assume "isdigit c"
    then have "upper_char c = c" by (rule upper_char_digit)
    with u \<open>\<not> isdigit u\<close> \<open>isdigit c\<close> show False by (simp only:)
  qed
  ultimately show ?thesis by (simp only: u)
qed

lemma takeWhile_digits_upper: "takeWhile isdigit (str_upper t) = takeWhile isdigit t"
  by (induction t) (simp_all add: str_upper_def isdigit_upper_char upper_char_digit)

lemma dropWhile_digits_upper: "dropWhile isdigit (str_upper t) = str_upper (dropWhile isdigit t)"
  by (induction t) (simp_all add: str_upper_def isdigit_upper_char)

section \<open>What a match of the pattern captures\<close>

lemma match_numfmt_facts:
  assumes "match_numfmt rest = (nf, len, dec)"
  shows "len = Some l \<Longrightarrow> l \<noteq> [] \<and> list_all isdigit l"
    "dec = Some k \<Longrightarrow> k \<noteq> [] \<and> list_all isdigit k"
  using assms
  by (auto simp: match_numfmt_def Let_def takeWhile_all split: if_splits list.splits)

lemma match_facts:
  assumes "FORTRAN_format_match s = Some g"
  shows "m_repeat g = takeWhile isdigit s" "takeWhile isdigit s \<noteq> []"
    "\<exists>rest. dropWhile isdigit s = m_format g # rest"
    "m_format g \<in> set ''IFEAX''"
    "m_length g = Some l \<Longrightarrow> l \<noteq> [] \<and> list_all isdigit l"
    "m_decimals g = Some k \<Longrightarrow> k \<noteq> [] \<and> list_all isdigit k"
proof -
  have rep: "takeWhile isdigit s \<noteq> []"
    using assms unfolding FORTRAN_format_match_def Let_def by (metis option.distinct(1))
  then show "takeWhile isdigit s \<noteq> []" .
  obtain c rest where dw: "dropWhile isdigit s = c # rest"
    using assms rep unfolding FORTRAN_format_match_def Let_def
    by (cases "dropWhile isdigit s") (simp_all del: takeWhile_eq_Nil_iff dropWhile_eq_Nil_conv)
  have c: "c \<in> set ''IFEAX''"
    using assms rep dw unfolding FORTRAN_format_match_def Let_def
    by (simp del: takeWhile_eq_Nil_iff dropWhile_eq_Nil_conv set_simps split: if_splits)
  obtain nf len dec where nm: "match_numfmt rest = (nf, len, dec)"
    by (cases "match_numfmt rest") auto
  have g: "g = \<lparr>m_repeat = takeWhile isdigit s, m_format = c, m_numfmt = nf,
                m_length = len, m_decimals = dec\<rparr>"
    using assms rep dw c nm unfolding FORTRAN_format_match_def Let_def
    by (simp del: takeWhile_eq_Nil_iff dropWhile_eq_Nil_conv set_simps)
  show "m_repeat g = takeWhile isdigit s" by (simp add: g)
  show "\<exists>rest. dropWhile isdigit s = m_format g # rest" using dw by (simp add: g)
  show "m_format g \<in> set ''IFEAX''" using c by (simp add: g del: set_simps)
  show "m_length g = Some l \<Longrightarrow> l \<noteq> [] \<and> list_all isdigit l"
    using match_numfmt_facts(1) [OF nm] by (simp add: g)
  show "m_decimals g = Some k \<Longrightarrow> k \<noteq> [] \<and> list_all isdigit k"
    using match_numfmt_facts(2) [OF nm] by (simp add: g)
qed

lemma match_None_iff:
  "FORTRAN_format_match s = None \<longleftrightarrow>
     takeWhile isdigit s = []
     \<or> (case dropWhile isdigit s of [] \<Rightarrow> True | c # rest \<Rightarrow> c \<notin> set ''IFEAX'')"
  unfolding FORTRAN_format_match_def Let_def
  by (simp del: takeWhile_eq_Nil_iff dropWhile_eq_Nil_conv set_simps
        split: list.splits prod.splits)

lemma match_descriptor_cases:
  assumes "match_descriptor t = Some g"
  shows "(FORTRAN_format_match (str_upper t) = Some g \<and> takeWhile isdigit t \<noteq> [])
       \<or> (FORTRAN_format_match (CHR ''1'' # str_upper t) = Some g \<and> takeWhile isdigit t = []
           \<and> m_repeat g = ''1'')"
proof (cases "FORTRAN_format_match (str_upper t)")
  case None
  then have m: "FORTRAN_format_match (CHR ''1'' # str_upper t) = Some g"
    using assms by (simp add: match_descriptor_def)
  then have nn: "FORTRAN_format_match (CHR ''1'' # str_upper t) \<noteq> None" by simp
  have e: "takeWhile isdigit (str_upper t) = []"
    using None nn unfolding match_None_iff
    by (simp add: isdigit_one del: takeWhile_eq_Nil_iff dropWhile_eq_Nil_conv set_simps)
  then have "takeWhile isdigit t = []" by (simp only: takeWhile_digits_upper)
  moreover have "m_repeat g = ''1''"
    using match_facts(1) [OF m] e by (simp add: isdigit_one del: takeWhile_eq_Nil_iff)
  ultimately show ?thesis using m by blast
next
  case (Some a)
  then have m: "FORTRAN_format_match (str_upper t) = Some g"
    using assms by (simp add: match_descriptor_def)
  have "takeWhile isdigit t \<noteq> []"
    using match_facts(2) [OF m] by (simp add: takeWhile_digits_upper del: takeWhile_eq_Nil_iff)
  then show ?thesis using m by blast
qed

lemma token_code_upper:
  "dropWhile isdigit (str_upper t) = c # rest \<Longrightarrow> token_code t = Some c"
  unfolding dropWhile_digits_upper token_code_def
  by (cases "dropWhile isdigit t") (simp_all add: str_upper_def del: dropWhile_eq_Nil_conv)

lemma match_descriptor_facts:
  assumes "match_descriptor t = Some g"
  shows "m_repeat g \<noteq> []" "list_all isdigit (m_repeat g)"
    "m_format g \<in> set ''IFEAX''"
    "token_code t = Some (m_format g)"
    "int_or_zero (m_repeat g) = token_repeat t"
    "m_length g = Some l \<Longrightarrow> l \<noteq> [] \<and> list_all isdigit l"
    "m_decimals g = Some k \<Longrightarrow> k \<noteq> [] \<and> list_all isdigit k"
proof -
  let ?u = "str_upper t"
  consider (direct) "FORTRAN_format_match ?u = Some g" "takeWhile isdigit t \<noteq> []"
    | (retry) "FORTRAN_format_match (CHR ''1'' # ?u) = Some g" "takeWhile isdigit t = []"
        "m_repeat g = ''1''"
    using match_descriptor_cases [OF assms] by blast
  then have main: "m_repeat g \<noteq> [] \<and> list_all isdigit (m_repeat g)
      \<and> m_format g \<in> set ''IFEAX'' \<and> token_code t = Some (m_format g)
      \<and> int_or_zero (m_repeat g) = token_repeat t
      \<and> (m_length g = Some l \<longrightarrow> l \<noteq> [] \<and> list_all isdigit l)
      \<and> (m_decimals g = Some k \<longrightarrow> k \<noteq> [] \<and> list_all isdigit k)"
  proof cases
    case direct
    note mf = match_facts [OF direct(1)]
    have r: "m_repeat g = takeWhile isdigit t" using mf(1) by (simp only: takeWhile_digits_upper)
    have "m_repeat g \<noteq> []" using r direct(2) by (simp del: takeWhile_eq_Nil_iff)
    moreover have d: "list_all isdigit (m_repeat g)" unfolding r by (rule takeWhile_all)
    moreover have "token_code t = Some (m_format g)"
      using mf(3) token_code_upper by blast
    moreover have "int_or_zero (m_repeat g) = token_repeat t"
      using direct(2) d r by (simp add: token_repeat_def int_or_zero_digits del: takeWhile_eq_Nil_iff)
    ultimately show ?thesis using mf(4,5,6) by blast
  next
    case retry
    note mf = match_facts [OF retry(1)]
    have "dropWhile isdigit (CHR ''1'' # ?u) = dropWhile isdigit ?u" by (simp add: isdigit_one)
    then have "token_code t = Some (m_format g)"
      using mf(3) token_code_upper by metis
    moreover have "int_or_zero (m_repeat g) = token_repeat t"
      using retry(2,3) by (simp add: token_repeat_def int_or_zero_digits isdigit_one digits_val_one del: takeWhile_eq_Nil_iff)
    moreover have "m_repeat g \<noteq> []" "list_all isdigit (m_repeat g)"
      using retry(3) by (simp_all add: isdigit_one)
    ultimately show ?thesis using mf(4,5,6) by blast
  qed
  from main show "m_repeat g \<noteq> []" "list_all isdigit (m_repeat g)"
    "m_format g \<in> set ''IFEAX''"
    "token_code t = Some (m_format g)"
    "int_or_zero (m_repeat g) = token_repeat t"
    "m_length g = Some l \<Longrightarrow> l \<noteq> [] \<and> list_all isdigit l"
    "m_decimals g = Some k \<Longrightarrow> k \<noteq> [] \<and> list_all isdigit k"
    by blast+
qed

section \<open>What a parsed descriptor holds\<close>

lemma parse_Inr:
  assumes "parse_FORTRAN_format t = Inr d"
  obtains g l where "match_descriptor t = Some g"
    "(if m_format g = CHR ''X'' then Some 1 else map_option int_or_zero (m_length g)) = Some l"
    "d = \<lparr>d_repeat = int_or_zero (m_repeat g), d_format = m_format g,
          d_numfmt = m_numfmt g, d_length = l,
          d_decimals = map_option int_or_zero (m_decimals g),
          d_totallength = int_or_zero (m_repeat g) * l\<rparr>"
proof (cases "match_descriptor t")
  case None
  then show ?thesis using assms by (simp add: parse_FORTRAN_format_def)
next
  case (Some g)
  have ne: "m_repeat g \<noteq> []" by (rule match_descriptor_facts(1) [OF Some])
  show ?thesis
  proof (cases "if m_format g = CHR ''X'' then Some 1 else map_option int_or_zero (m_length g)")
    case None
    then show ?thesis using assms Some by (simp add: parse_FORTRAN_format_def Let_def)
  next
    case (Some l)
    then show ?thesis
      using assms \<open>match_descriptor t = Some g\<close> ne that [of g l]
      by (simp add: parse_FORTRAN_format_def Let_def)
  qed
qed

lemma parse_facts:
  assumes "parse_FORTRAN_format t = Inr d"
  shows "d_repeat d = token_repeat t" "token_code t = Some (d_format d)"
    "placeable d" "d_format d = CHR ''X'' \<Longrightarrow> d_length d = 1"
proof -
  obtain g l where g: "match_descriptor t = Some g"
    and l: "(if m_format g = CHR ''X'' then Some 1 else map_option int_or_zero (m_length g)) = Some l"
    and d: "d = \<lparr>d_repeat = int_or_zero (m_repeat g), d_format = m_format g,
          d_numfmt = m_numfmt g, d_length = l,
          d_decimals = map_option int_or_zero (m_decimals g),
          d_totallength = int_or_zero (m_repeat g) * l\<rparr>"
    using assms by (rule parse_Inr)
  note mf = match_descriptor_facts [OF g]
  show "d_repeat d = token_repeat t" using mf(5) by (simp add: d)
  show "token_code t = Some (d_format d)" using mf(4) by (simp add: d)
  show "d_format d = CHR ''X'' \<Longrightarrow> d_length d = 1" using l by (simp add: d)
  have rep: "0 \<le> int_or_zero (m_repeat g)"
    using mf(1,2) by (simp add: int_or_zero_digits digits_val_nonneg)
  have len: "0 \<le> l"
  proof (cases "m_format g = CHR ''X''")
    case True
    then show ?thesis using l by simp
  next
    case False
    then obtain w where w: "m_length g = Some w" "l = int_or_zero w" using l by auto
    then show ?thesis using mf(6) [OF w(1)] by (simp add: int_or_zero_digits digits_val_nonneg)
  qed
  show "placeable d"
    unfolding placeable_def using mf(3) rep len by (simp add: d del: set_simps)
qed

lemma parse_descriptors_Inr:
  "parse_descriptors ts = Inr ds \<Longrightarrow> list_all2 (\<lambda>t d. parse_FORTRAN_format t = Inr d) ts ds"
  by (induction ts arbitrary: ds) (auto split: sum.splits)

lemma parsed_placeable:
  "list_all2 (\<lambda>t d. parse_FORTRAN_format t = Inr d) ts ds \<Longrightarrow> list_all placeable ds"
  by (induction rule: list_all2_induct) (simp_all add: parse_facts(3))

section \<open>The construction loop computes the layout\<close>

lemma convertors_Some:
  "c \<in> set ''IFEAX'' \<Longrightarrow> c \<noteq> CHR ''X'' \<Longrightarrow> \<exists>cv. convertors c = Some cv"
  by (auto simp: convertors_def)

lemma emit_entries_run:
  assumes "convertors (d_format d) = Some cv"
  shows "emit_entries n d (c, es) =
           Inr (c + int n * d_length d, es @ field_run n c (d_length d) (d_format d) cv)"
  using assms
  by (induction n arbitrary: c es) (simp_all add: FixedcolumnEntry_init_def Let_def algebra_simps)

lemma init_step_layout:
  assumes "placeable d"
  shows "init_step d (c, es) = Inr (c + d_totallength d, es @ layout c [d])"
proof (cases "d_format d = CHR ''X''")
  case True
  then show ?thesis by (simp add: init_step_def)
next
  case False
  then obtain cv where cv: "convertors (d_format d) = Some cv"
    using assms convertors_Some unfolding placeable_def by blast
  have "int (nat (d_repeat d)) = d_repeat d" using assms by (simp add: placeable_def)
  then show ?thesis
    using False cv assms emit_entries_run [OF cv, of "nat (d_repeat d)" c es]
    by (simp add: init_step_def placeable_def)
qed

lemma layout_Cons: "layout c (d # ds) = layout c [d] @ layout (c + d_totallength d) ds"
  by simp

lemma init_loop_layout:
  "list_all placeable ds \<Longrightarrow>
     init_loop ds (c, es) = Inr (c + sum_list (map d_totallength ds), es @ layout c ds)"
proof (induction ds arbitrary: c es)
  case Nil
  then show ?case by simp
next
  case (Cons d ds)
  have st: "init_step d (c, es) = Inr (c + d_totallength d, es @ layout c [d])"
    using Cons.prems by (simp add: init_step_layout)
  have "init_loop (d # ds) (c, es) = init_loop ds (c + d_totallength d, es @ layout c [d])"
    by (simp add: st)
  also have "\<dots> = Inr (c + d_totallength d + sum_list (map d_totallength ds),
      (es @ layout c [d]) @ layout (c + d_totallength d) ds)"
    using Cons.prems by (intro Cons.IH) simp
  finally show ?case by (simp only: layout_Cons [of c d ds] append_assoc list.map sum_list.Cons add.assoc)
qed

lemma init_entries:
  assumes "FORTRANReader_init fmt = Inr r"
  obtains ds where "parse_descriptors (split_comma fmt) = Inr ds"
    "list_all2 (\<lambda>t d. parse_FORTRAN_format t = Inr d) (split_comma fmt) ds"
    "list_all placeable ds" "r_entries r = layout 0 ds" "r_fmt r = split_comma fmt"
proof (cases "parse_descriptors (split_comma fmt)")
  case (Inl x)
  then show ?thesis using assms by (simp add: FORTRANReader_init_def)
next
  case (Inr ds)
  have l2: "list_all2 (\<lambda>t d. parse_FORTRAN_format t = Inr d) (split_comma fmt) ds"
    using Inr by (rule parse_descriptors_Inr)
  have pl: "list_all placeable ds"
    using l2 by (rule parsed_placeable)
  have "init_loop ds (0, []) = Inr (0 + sum_list (map d_totallength ds), [] @ layout 0 ds)"
    using pl by (rule init_loop_layout)
  then show ?thesis
    using assms Inr l2 pl that [of ds] by (auto simp: FORTRANReader_init_def)
qed

section \<open>Properties of the layout\<close>

lemma length_field_run: "length (field_run n c w ts cv) = n"
  by (induction n arbitrary: c) simp_all

lemma length_layout:
  "list_all2 (\<lambda>t d. parse_FORTRAN_format t = Inr d) ts ds \<Longrightarrow>
     int (length (layout c ds)) =
       sum_list (map (\<lambda>t. if token_code t = Some (CHR ''X'') then 0 else token_repeat t) ts)"
proof (induction arbitrary: c rule: list_all2_induct)
  case Nil
  show ?case by simp
next
  case (Cons t ts d ds)
  note pf = parse_facts [OF Cons.hyps(1)]
  show ?case
  proof (cases "d_format d = CHR ''X''")
    case True
    then show ?thesis using pf(2) Cons.IH by simp
  next
    case False
    then obtain cv where cv: "convertors (d_format d) = Some cv"
      using pf(3) convertors_Some unfolding placeable_def by blast
    have "0 \<le> d_repeat d" using pf(3) by (simp add: placeable_def)
    then show ?thesis
      using False cv pf(1,2) Cons.IH by (simp add: length_field_run)
  qed
qed

lemma ordered_from_mono: "c \<le> c' \<Longrightarrow> ordered_from c' es \<Longrightarrow> ordered_from c es"
  by (cases es) simp_all

lemma ordered_from_run:
  "0 \<le> w \<Longrightarrow>
     ordered_from c (field_run n c w ts cv @ rest) = ordered_from (c + int n * w) rest"
  by (induction n arbitrary: c) (simp_all add: algebra_simps)

lemma gapless_from_run:
  "gapless_from c (field_run n c w ts cv @ rest) = gapless_from (c + int n * w) rest"
  by (induction n arbitrary: c) (simp_all add: algebra_simps)

lemma placeable_total: "placeable d \<Longrightarrow> 0 \<le> d_totallength d"
  by (simp add: placeable_def)

lemma placeable_run:
  assumes "placeable d" "d_format d \<noteq> CHR ''X''"
  obtains cv where "convertors (d_format d) = Some cv"
    "layout c (d # ds) =
       field_run (nat (d_repeat d)) c (d_length d) (d_format d) cv
         @ layout (c + int (nat (d_repeat d)) * d_length d) ds"
proof -
  obtain cv where cv: "convertors (d_format d) = Some cv"
    using assms convertors_Some unfolding placeable_def by blast
  have "int (nat (d_repeat d)) * d_length d = d_totallength d"
    using assms(1) by (simp add: placeable_def)
  then show ?thesis using that [OF cv] cv assms(2) by simp
qed

lemma ordered_layout: "list_all placeable ds \<Longrightarrow> ordered_from c (layout c ds)"
proof (induction ds arbitrary: c)
  case Nil
  show ?case by simp
next
  case (Cons d ds)
  then have pl: "placeable d" and rest: "list_all placeable ds" by simp_all
  show ?case
  proof (cases "d_format d = CHR ''X''")
    case True
    have "ordered_from (c + d_totallength d) (layout (c + d_totallength d) ds)"
      using rest by (rule Cons.IH)
    then have "ordered_from c (layout (c + d_totallength d) ds)"
      using placeable_total [OF pl] by (intro ordered_from_mono [of c "c + d_totallength d"]) simp_all
    then show ?thesis using True by simp
  next
    case False
    obtain cv where eq: "layout c (d # ds) =
       field_run (nat (d_repeat d)) c (d_length d) (d_format d) cv
         @ layout (c + int (nat (d_repeat d)) * d_length d) ds"
      using placeable_run [OF pl False] by metis
    have "0 \<le> d_length d" using pl by (simp add: placeable_def)
    then show ?thesis
      unfolding eq by (simp only: ordered_from_run Cons.IH [OF rest])
  qed
qed

lemma gapless_layout:
  "list_all placeable ds \<Longrightarrow> list_all (\<lambda>d. d_format d \<noteq> CHR ''X'') ds \<Longrightarrow>
     gapless_from c (layout c ds)"
proof (induction ds arbitrary: c)
  case Nil
  show ?case by simp
next
  case (Cons d ds)
  then have pl: "placeable d" and rest: "list_all placeable ds"
    and nx: "d_format d \<noteq> CHR ''X''" and nxs: "list_all (\<lambda>d. d_format d \<noteq> CHR ''X'') ds"
    by simp_all
  obtain cv where eq: "layout c (d # ds) =
       field_run (nat (d_repeat d)) c (d_length d) (d_format d) cv
         @ layout (c + int (nat (d_repeat d)) * d_length d) ds"
    using placeable_run [OF pl nx] by metis
  show ?case
    unfolding eq by (simp only: gapless_from_run Cons.IH [OF rest nxs])
qed

lemma run_entry:
  "e \<in> set (field_run n c w ts cv) \<Longrightarrow>
     e_stop e = e_start e + w \<and> e_typespecifier e = ts \<and> e_convertor e = cv"
  by (induction n arbitrary: c) auto

lemma layout_entry:
  "e \<in> set (layout c ds) \<Longrightarrow>
     \<exists>d\<in>set ds. d_format d \<noteq> CHR ''X'' \<and> e_typespecifier e = d_format d
       \<and> convertors (d_format d) = Some (e_convertor e) \<and> e_stop e = e_start e + d_length d"
proof (induction ds arbitrary: c)
  case Nil
  then show ?case by simp
next
  case (Cons d ds)
  show ?case
  proof (cases "d_format d = CHR ''X''")
    case True
    then show ?thesis using Cons by auto
  next
    case False
    show ?thesis
    proof (cases "convertors (d_format d)")
      case None
      then show ?thesis using False Cons by auto
    next
      case (Some cv)
      then show ?thesis using False Cons run_entry [of e "nat (d_repeat d)" c "d_length d" "d_format d" cv]
        by auto
    qed
  qed
qed

lemma ordered_from_nth:
  "ordered_from c es \<Longrightarrow> i < length es \<Longrightarrow> c \<le> e_start (es ! i) \<and> e_start (es ! i) \<le> e_stop (es ! i)"
proof (induction es arbitrary: c i)
  case Nil
  then show ?case by simp
next
  case (Cons e es)
  show ?case
  proof (cases i)
    case 0
    then show ?thesis using Cons.prems by simp
  next
    case (Suc j)
    then have "e_stop e \<le> e_start (es ! j) \<and> e_start (es ! j) \<le> e_stop (es ! j)"
      using Cons.prems Cons.IH [of "e_stop e" j] by simp
    then show ?thesis using Suc Cons.prems by simp
  qed
qed

lemma ordered_from_Suc:
  "ordered_from c es \<Longrightarrow> Suc i < length es \<Longrightarrow> e_stop (es ! i) \<le> e_start (es ! Suc i)"
proof (induction es arbitrary: c i)
  case Nil
  then show ?case by simp
next
  case (Cons e es)
  show ?case
  proof (cases i)
    case 0
    then show ?thesis using Cons.prems ordered_from_nth [of "e_stop e" es 0] by simp
  next
    case (Suc j)
    then show ?thesis using Cons.prems Cons.IH [of "e_stop e" j] by simp
  qed
qed

lemma gapless_from_Suc:
  "gapless_from c es \<Longrightarrow> Suc i < length es \<Longrightarrow> e_stop (es ! i) = e_start (es ! Suc i)"
proof (induction es arbitrary: c i)
  case Nil
  then show ?case by simp
next
  case (Cons e es)
  show ?case
  proof (cases i)
    case 0
    then show ?thesis using Cons.prems by (cases es) simp_all
  next
    case (Suc j)
    then show ?thesis using Cons.prems Cons.IH [of "e_stop e" j] by simp
  qed
qed

section \<open>Reading a line\<close>

lemma read_Inl:
  "FixedcolumnEntry_read flt e line = Inl x \<Longrightarrow>
     x = ValueError e (py_slice line (e_start e) (e_stop e))"
  by (auto simp: FixedcolumnEntry_read_def Let_def split: option.splits)

lemma read_strip:
  "e_convertor e = Conv_strip \<Longrightarrow>
     FixedcolumnEntry_read flt e line = Inr (StrV (str_strip (py_slice line (e_start e) (e_stop e))))"
  by (simp add: FixedcolumnEntry_read_def Let_def)

lemma count_matches_filter:
  "count_matches flt es line m =
     Inr (m + int (length (filter (\<lambda>e. \<not> isl (FixedcolumnEntry_read flt e line)) es)))"
proof (induction es arbitrary: m)
  case Nil
  show ?case by simp
next
  case (Cons e es)
  show ?case
  proof (cases "FixedcolumnEntry_read flt e line")
    case (Inl x)
    then have "x = ValueError e (py_slice line (e_start e) (e_stop e))" by (rule read_Inl)
    then show ?thesis using Inl Cons.IH [of m] by simp
  next
    case (Inr v)
    then show ?thesis using Cons.IH [of "m + 1"] by simp
  qed
qed

lemma read_entries_fail:
  "list_all (\<lambda>e. \<not> isl (FixedcolumnEntry_read flt e line)) xs \<Longrightarrow>
   FixedcolumnEntry_read flt e line = Inl x \<Longrightarrow>
     read_entries flt (xs @ e # ys) line = Inl x"
proof (induction xs)
  case Nil
  then show ?case by simp
next
  case (Cons a xs)
  then obtain v where "FixedcolumnEntry_read flt a line = Inr v"
    by (cases "FixedcolumnEntry_read flt a line") auto
  then show ?case using Cons by simp
qed

lemma read_entries_strip:
  "list_all (\<lambda>e. e_convertor e = Conv_strip) es \<Longrightarrow>
     read_entries flt es line =
       Inr (map (\<lambda>e. StrV (str_strip (py_slice line (e_start e) (e_stop e)))) es)"
  by (induction es) (simp_all add: read_strip)

lemma filter_all: "list_all P xs \<Longrightarrow> filter P xs = xs"
  by (induction xs) simp_all

lemma all_but_one:
  assumes "i < length es" "\<forall>j<length es. j \<noteq> i \<longrightarrow> P (es ! j)"
  shows "list_all P (take i es)" "list_all P (drop (Suc i) es)"
proof -
  show "list_all P (take i es)"
    unfolding list_all_length using assms by simp
  show "list_all P (drop (Suc i) es)"
    unfolding list_all_length using assms by simp
qed

section \<open>Worked examples\<close>

lemma init_crd: "FORTRANReader_init ''2I10,2X,A8'' = Inr crd_reader"
  by code_simp

lemma slice_crd:
  "py_slice crd_line 0 10 = ''       123''"
  "py_slice crd_line 10 20 = ''       456''"
  "py_slice crd_line 22 30 = ''hello   ''"
  by code_simp+

lemma slice_bad:
  "py_slice bad_line 0 10 = ''       123''"
  "py_slice bad_line 10 20 = ''       45x''"
  "py_slice bad_line 22 30 = ''hello   ''"
  by code_simp+

lemma int_crd:
  "py_int ''       123'' = Some 123"
  "py_int ''       456'' = Some 456"
  "py_int ''       45x'' = None"
  by code_simp+

lemma strip_crd: "str_strip ''hello   '' = ''hello''"
  by code_simp

lemma read_crd:
  "FixedcolumnEntry_read flt (crd_entries ! 0) crd_line = Inr (IntV 123)"
  "FixedcolumnEntry_read flt (crd_entries ! 1) crd_line = Inr (IntV 456)"
  "FixedcolumnEntry_read flt (crd_entries ! 2) crd_line = Inr (StrV ''hello'')"
  by (simp_all add: FixedcolumnEntry_read_def slice_crd int_crd strip_crd)

lemma read_bad:
  "FixedcolumnEntry_read flt (crd_entries ! 0) bad_line = Inr (IntV 123)"
  "FixedcolumnEntry_read flt (crd_entries ! 1) bad_line = Inl (ValueError (crd_entries ! 1) ''       45x'')"
  "FixedcolumnEntry_read flt (crd_entries ! 2) bad_line = Inr (StrV ''hello'')"
  by (simp_all add: FixedcolumnEntry_read_def slice_bad int_crd strip_crd)

lemma sum_crd:
  "sum_list (map (\<lambda>t. if token_code t = Some (CHR ''X'') then 0 else token_repeat t)
      (split_comma ''2I10,2X,A8'')) = 3"
  by code_simp

section \<open>Properties of the specification\<close>

text \<open>
  C1. The claim: a descriptor token that does not match the pattern, also with
  \<^verbatim>\<open>"1"\<close> in front, makes the construction fail with a \<^verbatim>\<open>ValueError\<close> that
  names the token, as in \<^verbatim>\<open>"2Z10"\<close>. What the code does on \<^verbatim>\<open>"2Z10"\<close>: the
  second \<^verbatim>\<open>match\<close> returns \<^verbatim>\<open>None\<close> without raising, so the \<^verbatim>\<open>except\<close>
  branch with the \<^verbatim>\<open>ValueError\<close> is never taken, and \<^verbatim>\<open>m.groupdict()\<close> raises
  \<^verbatim>\<open>AttributeError\<close>. No reader is built.
\<close>

theorem malformed_token_AttributeError:
  "parse_FORTRAN_format ''2Z10'' = Inl AttributeError
   \<and> FORTRANReader_init ''2Z10'' = Inl AttributeError"
  by code_simp

text \<open>
  C2. For every format string that compiles, the number of entries of the reader is
  the sum of the repeat counts of the tokens whose type code is not \<open>X\<close>, a token
  with no repeat counting as 1.
\<close>

theorem entry_count_sum_repeats:
  assumes "FORTRANReader_init fmt = Inr r"
  shows "FORTRANReader_len r =
           sum_list (map (\<lambda>t. if token_code t = Some (CHR ''X'') then 0 else token_repeat t)
             (split_comma fmt))"
proof -
  obtain ds where l2: "list_all2 (\<lambda>t d. parse_FORTRAN_format t = Inr d) (split_comma fmt) ds"
    and es: "r_entries r = layout 0 ds"
    using assms by (rule init_entries)
  show ?thesis
    unfolding FORTRANReader_len_def es by (rule length_layout [OF l2])
qed

theorem entry_count_sum_repeats_witness:
  "FORTRANReader_init ''2I10,2X,A8'' = Inr crd_reader \<and> FORTRANReader_len crd_reader = 3"
  using entry_count_sum_repeats [OF init_crd] init_crd by (simp only: sum_crd simp_thms)

text \<open>
  C4. Compiling \<^verbatim>\<open>"2I10,2X,A8"\<close> gives three entries, columns 0 to 10 and 10 to 20
  of type \<open>I\<close> and columns 22 to 30 of type \<open>A\<close>, and reading the line
  \<^verbatim>\<open>"       123       456  hello   "\<close> with that reader returns 123, 456 and
  \<^verbatim>\<open>"hello"\<close>.
\<close>

theorem crd_example:
  "FORTRANReader_init ''2I10,2X,A8'' =
     Inr \<lparr>r_fmt = [''2I10'', ''2X'', ''A8''],
          r_entries =
            [\<lparr>e_start = 0, e_stop = 10, e_typespecifier = CHR ''I'', e_convertor = Conv_int\<rparr>,
             \<lparr>e_start = 10, e_stop = 20, e_typespecifier = CHR ''I'', e_convertor = Conv_int\<rparr>,
             \<lparr>e_start = 22, e_stop = 30, e_typespecifier = CHR ''A'', e_convertor = Conv_strip\<rparr>]\<rparr>
   \<and> FORTRANReader_read flt
       \<lparr>r_fmt = [''2I10'', ''2X'', ''A8''],
          r_entries =
            [\<lparr>e_start = 0, e_stop = 10, e_typespecifier = CHR ''I'', e_convertor = Conv_int\<rparr>,
             \<lparr>e_start = 10, e_stop = 20, e_typespecifier = CHR ''I'', e_convertor = Conv_int\<rparr>,
             \<lparr>e_start = 22, e_stop = 30, e_typespecifier = CHR ''A'', e_convertor = Conv_strip\<rparr>]\<rparr>
       ''       123       456  hello   ''
     = Inr [IntV 123, IntV 456, StrV ''hello'']"
proof -
  have "FORTRANReader_read flt crd_reader crd_line = Inr [IntV 123, IntV 456, StrV ''hello'']"
    using read_crd [of flt] by (simp add: FORTRANReader_read_def)
  then show ?thesis using init_crd by simp
qed

text \<open>
  C6. For every reader and every line, \<^verbatim>\<open>number_of_matches\<close> returns a number and
  raises nothing: the number of entries whose conversion succeeds on the line.
\<close>

theorem number_of_matches_total:
  "FORTRANReader_number_of_matches flt r line =
     Inr (int (length (filter (\<lambda>e. \<not> isl (FixedcolumnEntry_read flt e line)) (r_entries r))))"
  unfolding FORTRANReader_number_of_matches_def by (simp add: count_matches_filter)

lemma parse_dense: "parse_descriptors (split_comma ''2I5,A3'') = Inr dense_descriptors"
  by code_simp

lemma init_dense: "FORTRANReader_init ''2I5,A3'' = Inr dense_reader"
  by code_simp

lemma parse_crd:
  "parse_descriptors (split_comma ''2I10,2X,A8'')
     = Inr [descriptor_2I10, descriptor_2X, descriptor_A8]"
  by code_simp

lemma strict_layout:
  "list_all (\<lambda>d. d_format d \<noteq> CHR ''X'' \<longrightarrow> 0 < d_length d) ds \<Longrightarrow>
     list_all (\<lambda>e. e_start e < e_stop e) (layout c ds)"
proof -
  assume a: "list_all (\<lambda>d. d_format d \<noteq> CHR ''X'' \<longrightarrow> 0 < d_length d) ds"
  have "e_start e < e_stop e" if mem: "e \<in> set (layout c ds)" for e
  proof -
    obtain d where "d \<in> set ds" "d_format d \<noteq> CHR ''X''" "e_stop e = e_start e + d_length d"
      using layout_entry [OF mem] by blast
    then show ?thesis using a by (auto simp: list_all_iff)
  qed
  then show ?thesis by (simp add: list_all_iff)
qed

lemma layout_append:
  "layout c (xs @ ys) = layout c xs @ layout (c + sum_list (map d_totallength xs)) ys"
  by (induction xs arbitrary: c) (simp_all add: add.assoc)

lemma field_run_nth:
  "k < n \<Longrightarrow>
     field_run n c w ts cv ! k =
       \<lparr>e_start = c + int k * w, e_stop = c + int k * w + w,
        e_typespecifier = ts, e_convertor = cv\<rparr>"
proof (induction n arbitrary: c k)
  case 0
  then show ?case by simp
next
  case (Suc n)
  show ?case
  proof (cases k)
    case 0
    then show ?thesis by simp
  next
    case (Suc j)
    then have "j < n" using Suc.prems by simp
    then show ?thesis using Suc.IH [of j "c + w"] Suc by (simp add: algebra_simps)
  qed
qed

lemma length_layout_entries:
  "list_all placeable ds \<Longrightarrow> length (layout c ds) = entries_of ds"
proof (induction ds arbitrary: c)
  case Nil
  show ?case by (simp add: entries_of_def)
next
  case (Cons d ds)
  then have pl: "placeable d" and rest: "list_all placeable ds" by simp_all
  have ih: "length (layout c' ds) = entries_of ds" for c'
    using rest by (rule Cons.IH)
  show ?case
  proof (cases "d_format d = CHR ''X''")
    case True
    then show ?thesis using ih by (simp add: entries_of_def)
  next
    case False
    obtain cv where eq: "layout c (d # ds) =
       field_run (nat (d_repeat d)) c (d_length d) (d_format d) cv
         @ layout (c + int (nat (d_repeat d)) * d_length d) ds"
      using placeable_run [OF pl False] by metis
    show ?thesis
      unfolding eq using False ih [of "c + int (nat (d_repeat d)) * d_length d"]
      by (simp add: length_field_run entries_of_def)
  qed
qed

lemma parsed_skip_width:
  "list_all2 (\<lambda>t d. parse_FORTRAN_format t = Inr d) ts ds \<Longrightarrow>
     list_all (\<lambda>d. d_format d = CHR ''X'' \<longrightarrow> d_length d = 1) ds"
  by (induction rule: list_all2_induct) (simp_all add: parse_facts(4))

lemma totallength_columns:
  "list_all placeable ds \<Longrightarrow>
   list_all (\<lambda>d. d_format d = CHR ''X'' \<longrightarrow> d_length d = 1) ds \<Longrightarrow>
     sum_list (map d_totallength ds) = columns_of ds"
  by (induction ds) (auto simp: columns_of_def placeable_def)

lemma layout_placement:
  assumes "list_all placeable (pre @ d # post)"
    and "d_format d \<noteq> CHR ''X''" and "k < nat (d_repeat d)"
  shows "entries_of pre + k < length (layout c (pre @ d # post))"
    and "e_start (layout c (pre @ d # post) ! (entries_of pre + k))
           = c + sum_list (map d_totallength pre) + int k * d_length d"
    and "e_stop (layout c (pre @ d # post) ! (entries_of pre + k))
           = c + sum_list (map d_totallength pre) + int k * d_length d + d_length d"
    and "e_typespecifier (layout c (pre @ d # post) ! (entries_of pre + k)) = d_format d"
proof -
  let ?c' = "c + sum_list (map d_totallength pre)"
  let ?n = "nat (d_repeat d)"
  have plpre: "list_all placeable pre" and pld: "placeable d"
    using assms(1) by simp_all
  obtain cv where eq: "layout ?c' (d # post) =
       field_run ?n ?c' (d_length d) (d_format d) cv
         @ layout (?c' + int ?n * d_length d) post"
    using placeable_run [OF pld assms(2)] by metis
  have len: "length (layout c pre) = entries_of pre"
    using plpre by (rule length_layout_entries)
  have whole: "layout c (pre @ d # post) =
      layout c pre @ field_run ?n ?c' (d_length d) (d_format d) cv
        @ layout (?c' + int ?n * d_length d) post"
    by (simp only: layout_append [of c pre "d # post"] eq)
  show "entries_of pre + k < length (layout c (pre @ d # post))"
    unfolding whole using assms(3) len by (simp add: length_field_run)
  have nth: "layout c (pre @ d # post) ! (entries_of pre + k)
      = field_run ?n ?c' (d_length d) (d_format d) cv ! k"
    unfolding whole using assms(3) len
    by (simp add: nth_append length_field_run)
  show "e_start (layout c (pre @ d # post) ! (entries_of pre + k))
           = c + sum_list (map d_totallength pre) + int k * d_length d"
    and "e_stop (layout c (pre @ d # post) ! (entries_of pre + k))
           = c + sum_list (map d_totallength pre) + int k * d_length d + d_length d"
    and "e_typespecifier (layout c (pre @ d # post) ! (entries_of pre + k)) = d_format d"
    unfolding nth using field_run_nth [OF assms(3)] by simp_all
qed

text \<open>
  C3, as amended. In every reader produced by compilation every entry has
  \<open>0 \<le> start \<le> stop\<close>, with \<open>start < stop\<close> when every descriptor other than \<open>X\<close>
  has a positive width, and no entry starts before the one before it stops. The
  entries are placed exactly: the entries of a descriptor other than \<open>X\<close> come after
  the entries of the descriptors before it, and its \<open>k\<close>-th entry starts at the
  column that those descriptors cover (repeat times width for every descriptor other
  than \<open>X\<close>, the repeat for every \<open>X\<close> descriptor) plus \<open>k\<close> times its width, and
  stops one width further. An \<open>X\<close> descriptor so moves the cursor by its repeat and
  gives no entry: the number of entries is the sum of the repeats of the other
  descriptors. When the format has no \<open>X\<close> descriptor every entry starts exactly
  where the one before it stops.
\<close>

theorem entries_in_column_order:
  assumes "FORTRANReader_init fmt = Inr r"
    and "parse_descriptors (split_comma fmt) = Inr ds"
  shows "(\<forall>i<length (r_entries r).
            0 \<le> e_start (r_entries r ! i) \<and> e_start (r_entries r ! i) \<le> e_stop (r_entries r ! i))
       \<and> (\<forall>i. Suc i < length (r_entries r) \<longrightarrow>
            e_stop (r_entries r ! i) \<le> e_start (r_entries r ! Suc i))
       \<and> ((\<forall>d\<in>set ds. d_format d \<noteq> CHR ''X'' \<longrightarrow> 0 < d_length d) \<longrightarrow>
            (\<forall>i<length (r_entries r). e_start (r_entries r ! i) < e_stop (r_entries r ! i)))
       \<and> ((\<forall>d\<in>set ds. d_format d \<noteq> CHR ''X'') \<longrightarrow>
            (\<forall>i. Suc i < length (r_entries r) \<longrightarrow>
               e_stop (r_entries r ! i) = e_start (r_entries r ! Suc i)))
       \<and> length (r_entries r) = entries_of ds
       \<and> (\<forall>pre d post k.
            ds = pre @ d # post \<longrightarrow> d_format d \<noteq> CHR ''X'' \<longrightarrow> k < nat (d_repeat d) \<longrightarrow>
              entries_of pre + k < length (r_entries r)
              \<and> e_start (r_entries r ! (entries_of pre + k))
                  = columns_of pre + int k * d_length d
              \<and> e_stop (r_entries r ! (entries_of pre + k))
                  = columns_of pre + int k * d_length d + d_length d
              \<and> e_typespecifier (r_entries r ! (entries_of pre + k)) = d_format d)"
proof -
  obtain ds' where p: "parse_descriptors (split_comma fmt) = Inr ds'"
    and l2': "list_all2 (\<lambda>t d. parse_FORTRAN_format t = Inr d) (split_comma fmt) ds'"
    and pl': "list_all placeable ds'" and es': "r_entries r = layout 0 ds'"
    using assms(1) by (rule init_entries)
  have "ds' = ds" using p assms(2) by simp
  then have pl: "list_all placeable ds" and es: "r_entries r = layout 0 ds"
    and l2: "list_all2 (\<lambda>t d. parse_FORTRAN_format t = Inr d) (split_comma fmt) ds"
    using pl' es' l2' by simp_all
  have sk: "list_all (\<lambda>d. d_format d = CHR ''X'' \<longrightarrow> d_length d = 1) ds"
    using l2 by (rule parsed_skip_width)
  have ord: "ordered_from 0 (r_entries r)" unfolding es using pl by (rule ordered_layout)
  have a: "\<forall>i<length (r_entries r).
            0 \<le> e_start (r_entries r ! i) \<and> e_start (r_entries r ! i) \<le> e_stop (r_entries r ! i)"
    using ordered_from_nth [OF ord] by blast
  have b: "\<forall>i. Suc i < length (r_entries r) \<longrightarrow>
            e_stop (r_entries r ! i) \<le> e_start (r_entries r ! Suc i)"
    using ordered_from_Suc [OF ord] by blast
  have c: "\<forall>i<length (r_entries r). e_start (r_entries r ! i) < e_stop (r_entries r ! i)"
    if "\<forall>d\<in>set ds. d_format d \<noteq> CHR ''X'' \<longrightarrow> 0 < d_length d"
  proof -
    have "list_all (\<lambda>e. e_start e < e_stop e) (layout 0 ds)"
      using that by (intro strict_layout) (simp add: list_all_iff)
    then show ?thesis unfolding es by (simp add: list_all_length)
  qed
  have d: "\<forall>i. Suc i < length (r_entries r) \<longrightarrow>
               e_stop (r_entries r ! i) = e_start (r_entries r ! Suc i)"
    if "\<forall>d\<in>set ds. d_format d \<noteq> CHR ''X''"
  proof -
    have "gapless_from 0 (r_entries r)"
      unfolding es using pl that by (intro gapless_layout) (simp_all add: list_all_iff)
    then show ?thesis using gapless_from_Suc by blast
  qed
  have e: "length (r_entries r) = entries_of ds"
    unfolding es using pl by (rule length_layout_entries)
  have f: "entries_of pre + k < length (r_entries r)
              \<and> e_start (r_entries r ! (entries_of pre + k))
                  = columns_of pre + int k * d_length x
              \<and> e_stop (r_entries r ! (entries_of pre + k))
                  = columns_of pre + int k * d_length x + d_length x
              \<and> e_typespecifier (r_entries r ! (entries_of pre + k)) = d_format x"
    if sp: "ds = pre @ x # post" and nx: "d_format x \<noteq> CHR ''X''"
      and kk: "k < nat (d_repeat x)" for pre x post k
  proof -
    have plw: "list_all placeable (pre @ x # post)" using pl sp by simp
    have "list_all placeable pre"
      "list_all (\<lambda>d. d_format d = CHR ''X'' \<longrightarrow> d_length d = 1) pre"
      using pl sk sp by simp_all
    then have cols: "sum_list (map d_totallength pre) = columns_of pre"
      by (rule totallength_columns)
    show ?thesis
      using layout_placement [OF plw nx kk, of 0] cols unfolding es sp by simp
  qed
  from a b c d e f show ?thesis by blast
qed

theorem entries_in_column_order_witness:
  "FORTRANReader_init ''2I10,2X,A8'' = Inr crd_reader
   \<and> parse_descriptors (split_comma ''2I10,2X,A8'')
       = Inr ([descriptor_2I10, descriptor_2X] @ descriptor_A8 # [])
   \<and> entries_of [descriptor_2I10, descriptor_2X] = 2
   \<and> columns_of [descriptor_2I10, descriptor_2X] = 22
   \<and> e_start (r_entries crd_reader ! 2) = 22
   \<and> e_stop (r_entries crd_reader ! 2) = 30
   \<and> e_stop (r_entries crd_reader ! 1) \<le> e_start (r_entries crd_reader ! 2)
   \<and> e_start (r_entries crd_reader ! 1) < e_stop (r_entries crd_reader ! 1)
   \<and> FORTRANReader_init ''2I5,A3'' = Inr dense_reader
   \<and> parse_descriptors (split_comma ''2I5,A3'') = Inr dense_descriptors
   \<and> e_stop (r_entries dense_reader ! 1) = e_start (r_entries dense_reader ! 2)"
proof -
  note crd = entries_in_column_order [OF init_crd parse_crd]
  note dense = entries_in_column_order [OF init_dense parse_dense]
  have sp: "[descriptor_2I10, descriptor_2X, descriptor_A8]
      = [descriptor_2I10, descriptor_2X] @ descriptor_A8 # []"
    by simp
  have nx: "d_format descriptor_A8 \<noteq> CHR ''X''" and k: "0 < nat (d_repeat descriptor_A8)"
    by simp_all
  have n: "entries_of [descriptor_2I10, descriptor_2X] = 2"
    and cols: "columns_of [descriptor_2I10, descriptor_2X] = 22"
    by (simp_all add: entries_of_def columns_of_def)
  have placed: "e_start (r_entries crd_reader ! (entries_of [descriptor_2I10, descriptor_2X] + 0))
      = columns_of [descriptor_2I10, descriptor_2X] + int 0 * d_length descriptor_A8
    \<and> e_stop (r_entries crd_reader ! (entries_of [descriptor_2I10, descriptor_2X] + 0))
      = columns_of [descriptor_2I10, descriptor_2X] + int 0 * d_length descriptor_A8
          + d_length descriptor_A8"
    using crd sp nx k by blast
  have pos: "\<forall>d\<in>set [descriptor_2I10, descriptor_2X, descriptor_A8].
      d_format d \<noteq> CHR ''X'' \<longrightarrow> 0 < d_length d"
    by simp
  have i1: "1 < length (r_entries crd_reader)" "Suc 1 < length (r_entries crd_reader)"
    by simp_all
  have ord: "e_stop (r_entries crd_reader ! 1) \<le> e_start (r_entries crd_reader ! 2)
    \<and> e_start (r_entries crd_reader ! 1) < e_stop (r_entries crd_reader ! 1)"
    using crd pos i1 by simp
  have nox: "\<forall>d\<in>set dense_descriptors. d_format d \<noteq> CHR ''X''"
    by simp
  have j1: "Suc 1 < length (r_entries dense_reader)"
    by simp
  have gap: "e_stop (r_entries dense_reader ! 1) = e_start (r_entries dense_reader ! 2)"
    using dense nox j1 by simp
  from placed ord gap n cols init_crd parse_crd init_dense parse_dense show ?thesis
    by simp
qed

theorem zero_width_entry:
  "FORTRANReader_init ''I0'' = Inr empty_field_reader
   \<and> \<not> e_start (r_entries empty_field_reader ! 0) < e_stop (r_entries empty_field_reader ! 0)"
  by code_simp

text \<open>
  C5. When exactly one entry of a reader fails to convert on a line and every other
  entry converts, \<^verbatim>\<open>number_of_matches\<close> returns the number of entries less one,
  and \<^verbatim>\<open>read\<close> raises the \<^verbatim>\<open>ValueError\<close> of that entry, which carries the entry
  and the raw slice; no list of values is returned. The failing entry is a numeric
  one, since the convertor of an \<open>A\<close> entry never fails.
\<close>

theorem one_malformed_field:
  assumes "i < length (r_entries r)"
    and "FixedcolumnEntry_read flt (r_entries r ! i) line = Inl x"
    and "\<forall>j<length (r_entries r). j \<noteq> i \<longrightarrow> \<not> isl (FixedcolumnEntry_read flt (r_entries r ! j) line)"
  shows "FORTRANReader_number_of_matches flt r line = Inr (FORTRANReader_len r - 1)
       \<and> FORTRANReader_read flt r line = Inl x
       \<and> x = ValueError (r_entries r ! i)
               (py_slice line (e_start (r_entries r ! i)) (e_stop (r_entries r ! i)))
       \<and> e_convertor (r_entries r ! i) \<noteq> Conv_strip"
proof -
  let ?es = "r_entries r"
  let ?ok = "\<lambda>e. \<not> isl (FixedcolumnEntry_read flt e line)"
  have split: "?es = take i ?es @ ?es ! i # drop (Suc i) ?es"
    using assms(1) by (simp add: id_take_nth_drop)
  have before: "list_all ?ok (take i ?es)" and after: "list_all ?ok (drop (Suc i) ?es)"
    using all_but_one [of i ?es ?ok] assms(1,3) by blast+
  have bad: "\<not> ?ok (?es ! i)" using assms(2) by simp
  have "filter ?ok ?es = filter ?ok (take i ?es @ ?es ! i # drop (Suc i) ?es)"
    using split by simp
  also have "\<dots> = take i ?es @ drop (Suc i) ?es"
    using bad by (simp add: filter_all [OF before] filter_all [OF after])
  finally have "length (filter ?ok ?es) = length ?es - 1"
    using assms(1) by simp
  then have n: "FORTRANReader_number_of_matches flt r line = Inr (FORTRANReader_len r - 1)"
    using assms(1)
    by (simp add: FORTRANReader_number_of_matches_def count_matches_filter FORTRANReader_len_def
          of_nat_diff)
  have "read_entries flt (take i ?es @ ?es ! i # drop (Suc i) ?es) line = Inl x"
    using before assms(2) by (rule read_entries_fail)
  then have rd: "FORTRANReader_read flt r line = Inl x"
    unfolding FORTRANReader_read_def using split by simp
  have "e_convertor (?es ! i) \<noteq> Conv_strip"
    using assms(2) read_strip [of "?es ! i" flt line] by auto
  then show ?thesis using n rd read_Inl [OF assms(2)] by simp
qed

theorem one_malformed_field_witness:
  "FORTRANReader_number_of_matches no_float crd_reader bad_line = Inr 2
   \<and> FORTRANReader_read no_float crd_reader bad_line
       = Inl (ValueError (r_entries crd_reader ! 1) ''       45x'')"
proof -
  have i: "1 < length (r_entries crd_reader)" by simp
  have bad: "FixedcolumnEntry_read no_float (r_entries crd_reader ! 1) bad_line
     = Inl (ValueError (crd_entries ! 1) ''       45x'')"
    using read_bad(2) [of no_float] by simp
  have others: "\<forall>j<length (r_entries crd_reader). j \<noteq> 1 \<longrightarrow>
      \<not> isl (FixedcolumnEntry_read no_float (r_entries crd_reader ! j) bad_line)"
  proof (intro allI impI)
    fix j :: nat
    assume "j < length (r_entries crd_reader)" "j \<noteq> 1"
    then have "j = 0 \<or> j = 2" by auto
    then show "\<not> isl (FixedcolumnEntry_read no_float (r_entries crd_reader ! j) bad_line)"
      using read_bad(1,3) [of no_float] by auto
  qed
  from one_malformed_field [OF i bad others] show ?thesis
    by (simp add: FORTRANReader_len_def)
qed




lemma parse_3X7: "parse_FORTRAN_format ''3X7'' = Inr descriptor_3X7"
  by code_simp


lemma digits_examples:
  "digits_val ''8'' = 8" "digits_val ''3'' = 3" "takeWhile isdigit ''A8'' = []"
  "takeWhile isdigit ''3X7'' = ''3''" "token_repeat ''3X7'' = 3"
  by code_simp+



text \<open>
  C8. For every token that parses to an \<open>X\<close> descriptor, whatever width is written,
  the width is 1 and the total length is the repeat count; the step of the
  construction loop moves the column cursor on by the repeat count and leaves the
  list of entries as it is.
\<close>

theorem skip_descriptor:
  assumes "parse_FORTRAN_format t = Inr d"
    and "d_format d = CHR ''X''"
  shows "d_length d = 1 \<and> d_repeat d = token_repeat t \<and> d_totallength d = token_repeat t
       \<and> init_step d (c, es) = Inr (c + token_repeat t, es)"
proof -
  note pf = parse_facts [OF assms(1)]
  have "d_totallength d = d_repeat d"
    using pf(3) pf(4) [OF assms(2)] by (simp add: placeable_def)
  then show ?thesis
    using pf(1) pf(4) [OF assms(2)] assms(2) by (simp add: init_step_def)
qed

theorem skip_descriptor_witness:
  "parse_FORTRAN_format ''3X7'' = Inr descriptor_3X7
   \<and> d_length descriptor_3X7 = 1
   \<and> init_step descriptor_3X7 (20, crd_entries) = Inr (23, crd_entries)"
proof -
  have x: "d_format descriptor_3X7 = CHR ''X''" by simp
  from skip_descriptor [OF parse_3X7 x, of 20 crd_entries] parse_3X7 show ?thesis
    by (simp add: digits_examples)
qed

text \<open>
  C9, as amended. For every format string that compiles, \<^verbatim>\<open>repr\<close> of the reader is
  the class name followed by the format string in parentheses; the format string
  inside is exactly the one the reader was constructed from.
\<close>

theorem repr_wraps_format:
  assumes "FORTRANReader_init fmt = Inr r"
  shows "FORTRANReader_repr r = ''FORTRANReader('' @ fmt @ '')''"
proof -
  have "r_fmt r = split_comma fmt"
    using assms by (auto simp: FORTRANReader_init_def split: sum.splits)
  then show ?thesis by (simp add: FORTRANReader_repr_def join_split_comma)
qed

theorem repr_wraps_format_witness:
  "FORTRANReader_init ''2I10,2X,A8'' = Inr crd_reader
   \<and> FORTRANReader_repr crd_reader = ''FORTRANReader(2I10,2X,A8)''"
  using repr_wraps_format [OF init_crd] init_crd by simp

theorem repr_is_not_format:
  "FORTRANReader_init ''2I10,2X,A8'' = Inr crd_reader
   \<and> FORTRANReader_repr crd_reader \<noteq> ''2I10,2X,A8''"
  by code_simp

text \<open>
  C10. In every reader produced by compilation, reading an entry of type \<open>A\<close>
  succeeds on every line and returns the slice with white space stripped. When every
  token of the format has type code \<open>A\<close> or \<open>X\<close>, \<^verbatim>\<open>read\<close> returns the stripped
  slices of all entries on every line and \<^verbatim>\<open>number_of_matches\<close> returns the
  number of entries.
\<close>

theorem text_fields_never_fail:
  assumes "FORTRANReader_init fmt = Inr r"
  shows "(\<forall>e\<in>set (r_entries r). e_typespecifier e = CHR ''A'' \<longrightarrow>
            FixedcolumnEntry_read flt e line
              = Inr (StrV (str_strip (py_slice line (e_start e) (e_stop e)))))
       \<and> ((\<forall>t\<in>set (split_comma fmt).
              token_code t = Some (CHR ''A'') \<or> token_code t = Some (CHR ''X'')) \<longrightarrow>
            FORTRANReader_read flt r line
              = Inr (map (\<lambda>e. StrV (str_strip (py_slice line (e_start e) (e_stop e))))
                      (r_entries r))
            \<and> FORTRANReader_number_of_matches flt r line = Inr (FORTRANReader_len r))"
proof -
  obtain ds where l2: "list_all2 (\<lambda>t d. parse_FORTRAN_format t = Inr d) (split_comma fmt) ds"
    and es: "r_entries r = layout 0 ds"
    using assms by (rule init_entries)
  have conv: "convertors (e_typespecifier e) = Some (e_convertor e)"
    if "e \<in> set (r_entries r)" for e
    using layout_entry [of e 0 ds] that es by auto
  have a: "FixedcolumnEntry_read flt e line
              = Inr (StrV (str_strip (py_slice line (e_start e) (e_stop e))))"
    if "e \<in> set (r_entries r)" "e_typespecifier e = CHR ''A''" for e
  proof -
    have "e_convertor e = Conv_strip"
      using conv [OF that(1)] that(2) by (simp add: convertors_def)
    then show ?thesis by (rule read_strip)
  qed
  have b: "FORTRANReader_read flt r line
              = Inr (map (\<lambda>e. StrV (str_strip (py_slice line (e_start e) (e_stop e))))
                      (r_entries r))
            \<and> FORTRANReader_number_of_matches flt r line = Inr (FORTRANReader_len r)"
    if only: "\<forall>t\<in>set (split_comma fmt).
              token_code t = Some (CHR ''A'') \<or> token_code t = Some (CHR ''X'')"
  proof -
    have fmts: "d_format d = CHR ''A'' \<or> d_format d = CHR ''X''" if dm: "d \<in> set ds" for d
    proof -
      obtain k where k: "k < length ds" "ds ! k = d"
        using dm by (auto simp: in_set_conv_nth)
      then have "parse_FORTRAN_format (split_comma fmt ! k) = Inr d"
        "k < length (split_comma fmt)"
        using l2 by (auto simp: list_all2_conv_all_nth)
      then show ?thesis using parse_facts(2) only by (metis nth_mem option.inject)
    qed
    have "e_convertor e = Conv_strip" if mem: "e \<in> set (r_entries r)" for e
    proof -
      obtain d where "d \<in> set ds" "d_format d \<noteq> CHR ''X''" "e_typespecifier e = d_format d"
        using layout_entry [of e 0 ds] mem es by auto
      then have "e_typespecifier e = CHR ''A''" using fmts by auto
      then show ?thesis using conv [OF mem] by (simp add: convertors_def)
    qed
    then have all: "list_all (\<lambda>e. e_convertor e = Conv_strip) (r_entries r)"
      by (simp add: list_all_iff)
    have ok: "list_all (\<lambda>e. \<not> isl (FixedcolumnEntry_read flt e line)) (r_entries r)"
      using all by (auto simp: list_all_iff read_strip)
    show ?thesis
      unfolding FORTRANReader_read_def FORTRANReader_number_of_matches_def FORTRANReader_len_def
      by (simp add: read_entries_strip [OF all] count_matches_filter filter_all [OF ok])
  qed
  from a b show ?thesis by blast
qed

lemma init_text: "FORTRANReader_init ''A4,2X,A3'' = Inr text_reader"
  by code_simp

lemma codes_text:
  "\<forall>t\<in>set (split_comma ''A4,2X,A3'').
     token_code t = Some (CHR ''A'') \<or> token_code t = Some (CHR ''X'')"
  by code_simp

lemma slice_short:
  "str_strip (py_slice ''ab'' 0 4) = ''ab''" "str_strip (py_slice ''ab'' 6 9) = []"
  by code_simp+

theorem text_fields_never_fail_witness:
  "FORTRANReader_init ''A4,2X,A3'' = Inr text_reader
   \<and> FixedcolumnEntry_read no_float (r_entries text_reader ! 1) ''ab'' = Inr (StrV [])
   \<and> FORTRANReader_read no_float text_reader ''ab'' = Inr [StrV ''ab'', StrV []]
   \<and> FORTRANReader_number_of_matches no_float text_reader ''ab'' = Inr 2"
  using text_fields_never_fail [OF init_text, of no_float "''ab''"] codes_text init_text
  by (simp add: slice_short FORTRANReader_len_def)

end
